theory Spec2Isabelle
  imports Main "HOL-Library.Word"
begin

section \<open>The vanity-address search of \<^verbatim>\<open>main.go\<close>\<close>

text \<open>
  The program draws ed25519 key pairs until the Base58 form of a public key has the
  prefix and/or postfix given on the command line, on \<^verbatim>\<open>runtime.NumCPU()\<close> goroutines
  that hand the first hit to the main goroutine through a channel of capacity one.

  Library functions the file calls but does not define are parameters of the model:
  \<^verbatim>\<open>base58.Encode\<close>, \<^verbatim>\<open>strings.ToLower\<close>, \<^verbatim>\<open>ed25519.GenerateKey\<close> and
  \<^verbatim>\<open>runtime.NumCPU\<close>. \<^verbatim>\<open>strings.HasPrefix\<close>, \<^verbatim>\<open>strings.HasSuffix\<close> and
  \<^verbatim>\<open>json.MarshalIndent\<close> on a slice of ints are written out as the Go library defines them.
\<close>

subsection \<open>Strings and the match test (lines 105--120)\<close>

type_synonym byte = "8 word"

text \<open>
  \<^verbatim>\<open>strings.HasPrefix(s, prefix)\<close> is
  \<^verbatim>\<open>len(s) >= len(prefix) && s[:len(prefix)] == prefix\<close>, and
  \<^verbatim>\<open>strings.HasSuffix(s, suffix)\<close> is
  \<^verbatim>\<open>len(s) >= len(suffix) && s[len(s)-len(suffix):] == suffix\<close>.
\<close>

definition HasPrefix :: "string \<Rightarrow> string \<Rightarrow> bool" where
  "HasPrefix s p = (length s \<ge> length p \<and> take (length p) s = p)"

definition HasSuffix :: "string \<Rightarrow> string \<Rightarrow> bool" where
  "HasSuffix s p = (length s \<ge> length p \<and> drop (length s - length p) s = p)"

text \<open>
  Go's \<^verbatim>\<open>error\<close> values of the program: the message returned when neither flag is given
  (line 69), whatever \<^verbatim>\<open>ed25519.GenerateKey\<close> or \<^verbatim>\<open>json.MarshalIndent\<close> may return,
  and the wrapping of line 150.
\<close>

datatype error =
    PatternMissing
  | EntropyError
  | MarshalError
  | JSONConversionFailed error

text \<open>
  The command-line flags and the library functions of one run. \<open>GenerateKey n\<close> is what the
  \<open>n\<close>-th call of \<^verbatim>\<open>ed25519.GenerateKey(rand.Reader)\<close> of the run returns, counted over all
  goroutines from 0.
\<close>

record conf =
  prefix :: string
  postfix :: string
  caseSensitive :: bool
  NumCPU :: int
  Encode :: "byte list \<Rightarrow> string"
  ToLower :: "string \<Rightarrow> string"
  GenerateKey :: "nat \<Rightarrow> error + byte list \<times> byte list"

text \<open>
  Lines 105--120: the three \<^verbatim>\<open>check\<close> variables, lower-cased when \<^verbatim>\<open>caseSensitive\<close> is
  false, and the two guarded tests. Each \<^verbatim>\<open>continue\<close> is the answer \<open>False\<close>; falling
  through both is \<open>True\<close>. The emptiness tests read the flag itself, not its lower-cased
  copy.
\<close>

definition matches :: "conf \<Rightarrow> string \<Rightarrow> bool" where
  "matches c address =
     (let checkAddress = (if \<not> caseSensitive c then ToLower c address else address);
          checkPrefix = (if \<not> caseSensitive c then ToLower c (prefix c) else prefix c);
          checkPostfix = (if \<not> caseSensitive c then ToLower c (postfix c) else postfix c)
      in if prefix c \<noteq> [] \<and> \<not> HasPrefix checkAddress checkPrefix then False
         else if postfix c \<noteq> [] \<and> \<not> HasSuffix checkAddress checkPostfix then False
         else True)"

text \<open>
  An ASCII lower-casing, used where a concrete \<open>ToLower\<close> is needed: on strings of ASCII
  characters \<^verbatim>\<open>strings.ToLower\<close> maps \<^verbatim>\<open>A..Z\<close> to \<^verbatim>\<open>a..z\<close> and leaves every other
  character alone.
\<close>

definition asciiLowerChar :: "char \<Rightarrow> char" where
  "asciiLowerChar ch =
     (case map_of (zip ''ABCDEFGHIJKLMNOPQRSTUVWXYZ'' ''abcdefghijklmnopqrstuvwxyz'') ch of
        Some l \<Rightarrow> l
      | None \<Rightarrow> ch)"

definition asciiToLower :: "string \<Rightarrow> string" where
  "asciiToLower s = map asciiLowerChar s"

text \<open>The fields of a configuration lower-cased, as the property of the specification
  writes \<open>lower_fields(P)\<close>.\<close>

definition lower_fields :: "conf \<Rightarrow> conf" where
  "lower_fields c = c\<lparr>prefix := ToLower c (prefix c), postfix := ToLower c (postfix c)\<rparr>"

text \<open>A string as the specification compares it: lower-cased when \<^verbatim>\<open>caseSensitive\<close> is false,
  as it is otherwise.\<close>

definition folded :: "conf \<Rightarrow> string \<Rightarrow> string" where
  "folded c s = (if caseSensitive c then s else ToLower c s)"

subsection \<open>\<^verbatim>\<open>privateKeyToJSON\<close> (lines 29--39)\<close>

text \<open>
  \<^verbatim>\<open>strconv\<close>'s decimal form of an \<^verbatim>\<open>int\<close>, which the JSON encoder writes for an integer.
\<close>

definition digitChar :: "nat \<Rightarrow> char" where
  "digitChar d = ''0123456789'' ! d"

fun decimal :: "nat \<Rightarrow> string" where
  "decimal n = (if n < 10 then [digitChar n] else decimal (n div 10) @ [digitChar (n mod 10)])"

declare decimal.simps [simp del]

definition formatInt :: "int \<Rightarrow> string" where
  "formatInt i = (if i < 0 then CHR ''-'' # decimal (nat (- i)) else decimal (nat i))"

text \<open>
  \<^verbatim>\<open>json.MarshalIndent(ints, "", "  ")\<close> on a non-nil \<^verbatim>\<open>[]int\<close>: \<^verbatim>\<open>[]\<close> for the empty
  slice; otherwise an opening bracket, each element on a line of its own behind two
  spaces, a comma after every element but the last, and the closing bracket on a last
  line. The encoder has no failing case for a slice of ints, so the result is always
  \<open>Inr\<close>; the type keeps Go's \<^verbatim>\<open>([]byte, error)\<close>.
\<close>

fun indentedElements :: "int list \<Rightarrow> string" where
  "indentedElements [] = []"
| "indentedElements [x] = CHR 0x0A # ''  '' @ formatInt x"
| "indentedElements (x # y # ys) =
     CHR 0x0A # ''  '' @ formatInt x @ '','' @ indentedElements (y # ys)"

definition MarshalIndent :: "int list \<Rightarrow> error + string" where
  "MarshalIndent v =
     Inr (if v = [] then ''[]'' else ''['' @ indentedElements v @ [CHR 0x0A] @ '']'')"

definition privateKeyToJSON :: "byte list \<Rightarrow> error + string" where
  "privateKeyToJSON privateKey =
     (let ints = map uint privateKey
      in case MarshalIndent ints of
           Inl err \<Rightarrow> Inl err
         | Inr data \<Rightarrow> Inr data)"

subsection \<open>Reading a JSON array of byte values back\<close>

text \<open>
  The reader of the round trip: JSON's grammar for an array of numbers, restricted to the
  integers a byte can hold. Whitespace is space, tab, line feed and carriage return; a
  number is a run of digits with no leading zero, at most 255. The program itself has no
  reader; this one is the specification's "parsing that array back into bytes".
\<close>

definition isSpace :: "char \<Rightarrow> bool" where
  "isSpace ch = (ch \<in> set [CHR '' '', CHR 0x09, CHR 0x0A, CHR 0x0D])"

definition isDigit :: "char \<Rightarrow> bool" where
  "isDigit ch = (ch \<in> set ''0123456789'')"

definition digitValue :: "char \<Rightarrow> nat" where
  "digitValue ch = of_char ch - 48"

definition skipSpace :: "string \<Rightarrow> string" where
  "skipSpace s = dropWhile isSpace s"

definition parseByte :: "string \<Rightarrow> (byte \<times> string) option" where
  "parseByte s =
     (let ds = takeWhile isDigit s;
          n = foldl (\<lambda>a d. 10 * a + digitValue d) 0 ds
      in if ds = [] \<or> (length ds > 1 \<and> hd ds = CHR ''0'') \<or> n > 255 then None
         else Some (word_of_nat n, dropWhile isDigit s))"

function parseElements :: "string \<Rightarrow> byte list option" where
  "parseElements s =
     (case parseByte (skipSpace s) of
        None \<Rightarrow> None
      | Some (b, r) \<Rightarrow>
          (case skipSpace r of
             [] \<Rightarrow> None
           | ch # r' \<Rightarrow>
               if ch = CHR '','' then map_option ((#) b) (parseElements r')
               else if ch = CHR '']'' \<and> skipSpace r' = [] then Some [b]
               else None))"
  by pat_completeness auto

termination
proof (relation "measure length", goal_cases)
  case 1
  show ?case by simp
next
  case (2 s x b r ch r')
  from 2(1,2) have "r = dropWhile isDigit (skipSpace s)"
    by (auto simp: parseByte_def Let_def split: if_splits)
  then have "length r \<le> length s"
    unfolding skipSpace_def
    by (metis length_dropWhile_le order_trans)
  moreover have "length (skipSpace r) \<le> length r"
    unfolding skipSpace_def by (rule length_dropWhile_le)
  moreover from 2(3) have "length r' < length (skipSpace r)"
    by simp
  ultimately show ?case by simp
qed

declare parseElements.simps [simp del]

definition parseByteArray :: "string \<Rightarrow> byte list option" where
  "parseByteArray s =
     (case skipSpace s of
        [] \<Rightarrow> None
      | ch # r \<Rightarrow>
          if ch \<noteq> CHR ''['' then None
          else (case skipSpace r of
                  [] \<Rightarrow> None
                | ch' # r' \<Rightarrow>
                    if ch' = CHR '']'' then (if skipSpace r' = [] then Some [] else None)
                    else parseElements r))"

subsection \<open>The run: goroutines, channel and context (lines 64--154)\<close>

record Result =
  Address :: string
  PublicKey :: "byte list"
  PrivateKey :: "byte list"

text \<open>
  Lines 97--120, one pass of a worker's loop from the key generation to the match test,
  given the number \<open>n\<close> of the \<^verbatim>\<open>GenerateKey\<close> call it makes: \<open>None\<close> is \<^verbatim>\<open>continue\<close>
  (a failed generation at line 99, or an address that does not match), \<open>Some r\<close> is
  reaching the \<^verbatim>\<open>select\<close> of line 123 with the \<^verbatim>\<open>Result\<close> it will offer.
\<close>

definition iteration :: "conf \<Rightarrow> nat \<Rightarrow> Result option" where
  "iteration c n =
     (case GenerateKey c n of
        Inl err \<Rightarrow> None
      | Inr (publicKey, privateKey) \<Rightarrow>
          (let address = Encode c publicKey
           in if matches c address
              then Some \<lparr>Address = address, PublicKey = publicKey, PrivateKey = privateKey\<rparr>
              else None))"

text \<open>
  Where a worker goroutine stands: at the non-blocking \<^verbatim>\<open>select\<close> that opens the loop
  (line 92), past its \<^verbatim>\<open>default\<close> branch (line 97), at the blocking \<^verbatim>\<open>select\<close> with the
  result it offers (line 123), between its send and its \<^verbatim>\<open>cancel()\<close> (line 129), or
  returned (its deferred \<^verbatim>\<open>wg.Done()\<close> has run).
\<close>

datatype wpc = LoopTop | Generating | Publishing Result | Cancelling | Exited

text \<open>
  Where the main goroutine stands in \<^verbatim>\<open>Action\<close>: at its start, at the receive of line
  139, at \<^verbatim>\<open>wg.Wait()\<close> with the result received, or returned with Go's \<^verbatim>\<open>error\<close>
  (\<open>None\<close> for \<^verbatim>\<open>nil\<close>).
\<close>

datatype mpc = Starting | Receiving | Waiting Result | Returned "error option"

text \<open>
  What \<^verbatim>\<open>Action\<close> prints, line by line. The elapsed time printed beside the number of
  attempts is wall-clock time and is left out.
\<close>

datatype line =
    Started
  | FoundAddress string
  | Attempts int
  | PublicKeyBase58 string
  | PrivateKeyBase58 string
  | PrivateKeyJSON string

text \<open>
  The shared state. \<open>resultCh\<close> is the buffer of the channel of capacity one, \<open>ctxDone\<close>
  is whether \<^verbatim>\<open>ctx.Done()\<close> is closed, \<open>totalIterations\<close> is the \<^verbatim>\<open>int64\<close> counter.
  \<open>calls\<close> counts the calls of \<^verbatim>\<open>GenerateKey\<close> made so far; it selects the outcome of
  the next call and nothing in the program reads it.
\<close>

record state =
  pc :: mpc
  workers :: "wpc list"
  totalIterations :: "64 word"
  resultCh :: "Result list"
  ctxDone :: bool
  stdout :: "line list"
  calls :: nat

definition boot :: state where
  "boot = \<lparr>pc = Starting, workers = [], totalIterations = 0, resultCh = [],
            ctxDone = False, stdout = [], calls = 0\<rparr>"

text \<open>
  The atomic steps of the goroutines. A schedule is a list of them; \<open>step\<close> is \<open>None\<close>
  where the step cannot be taken (the goroutine is elsewhere, or blocked).

  \<^item> \<open>Start\<close>: lines 64--87 of main: the check of the flags, the first line of output, and
    the loop that starts \<^verbatim>\<open>numWorkers\<close> goroutines (none when the number is not positive).
    A goroutine that has not run yet has done nothing another one can see, so the loop is
    one step.
  \<^item> \<open>Poll i\<close>: worker \<open>i\<close> at the \<^verbatim>\<open>select\<close> of line 92: returns when the context is
    done, takes \<^verbatim>\<open>default\<close> otherwise.
  \<^item> \<open>Iterate i\<close>: lines 97--120: the atomic increment, the key generation and the match
    test. The counter is read by main only after \<^verbatim>\<open>wg.Wait()\<close>, and the rest is local
    to the goroutine, so they are one step.
  \<^item> \<open>Send i\<close>: the first case of the \<^verbatim>\<open>select\<close> of line 123: it can proceed when the
    buffer has room, whether or not the context is done (Go picks among the cases that can
    proceed).
  \<^item> \<open>Cancel i\<close>: line 129, \<^verbatim>\<open>cancel()\<close> and the return that follows a send.
  \<^item> \<open>Quit i\<close>: the second case of that \<^verbatim>\<open>select\<close> (line 131): it can proceed when the
    context is done.
  \<^item> \<open>Recv\<close>: line 139 of main, the receive; it can proceed when the buffer holds a value.
  \<^item> \<open>Finish\<close>: lines 140--153 of main: \<^verbatim>\<open>wg.Wait()\<close> returns once every worker has
    returned; then the report, the return and the deferred \<^verbatim>\<open>cancel()\<close>.
\<close>

datatype event = Start | Poll nat | Iterate nat | Send nat | Cancel nat | Quit nat | Recv | Finish

definition spawn :: "conf \<Rightarrow> state \<Rightarrow> state" where
  "spawn c s =
     (let numWorkers = NumCPU c
      in s\<lparr>workers := replicate (nat numWorkers) LoopTop, pc := Receiving\<rparr>)"

definition report :: "conf \<Rightarrow> Result \<Rightarrow> state \<Rightarrow> state" where
  "report c result s =
     (let s1 = s\<lparr>stdout := stdout s @
                  [FoundAddress (Address result),
                   Attempts (sint (totalIterations s)),
                   PublicKeyBase58 (Encode c (PublicKey result)),
                   PrivateKeyBase58 (Encode c (PrivateKey result))]\<rparr>
      in case privateKeyToJSON (PrivateKey result) of
           Inl err \<Rightarrow> s1\<lparr>pc := Returned (Some (JSONConversionFailed err))\<rparr>
         | Inr pkJSON \<Rightarrow>
             s1\<lparr>stdout := stdout s1 @ [PrivateKeyJSON pkJSON], pc := Returned None\<rparr>)"

fun step :: "conf \<Rightarrow> event \<Rightarrow> state \<Rightarrow> state option" where
  "step c Start s =
     (if pc s \<noteq> Starting then None
      else if prefix c = [] \<and> postfix c = []
      then Some (s\<lparr>pc := Returned (Some PatternMissing)\<rparr>)
      else Some (spawn c (s\<lparr>stdout := stdout s @ [Started]\<rparr>)))"
| "step c (Poll i) s =
     (if i < length (workers s) \<and> workers s ! i = LoopTop
      then Some (s\<lparr>workers := (workers s)[i := (if ctxDone s then Exited else Generating)]\<rparr>)
      else None)"
| "step c (Iterate i) s =
     (if i < length (workers s) \<and> workers s ! i = Generating
      then Some (s\<lparr>totalIterations := totalIterations s + 1,
                    calls := Suc (calls s),
                    workers := (workers s)[i :=
                      (case iteration c (calls s) of
                         None \<Rightarrow> LoopTop
                       | Some r \<Rightarrow> Publishing r)]\<rparr>)
      else None)"
| "step c (Send i) s =
     (if i < length (workers s) then
        (case workers s ! i of
           Publishing r \<Rightarrow>
             if length (resultCh s) < 1
             then Some (s\<lparr>resultCh := resultCh s @ [r],
                           workers := (workers s)[i := Cancelling]\<rparr>)
             else None
         | _ \<Rightarrow> None)
      else None)"
| "step c (Cancel i) s =
     (if i < length (workers s) \<and> workers s ! i = Cancelling
      then Some (s\<lparr>ctxDone := True, workers := (workers s)[i := Exited]\<rparr>)
      else None)"
| "step c (Quit i) s =
     (if i < length (workers s) then
        (case workers s ! i of
           Publishing r \<Rightarrow>
             if ctxDone s then Some (s\<lparr>workers := (workers s)[i := Exited]\<rparr>) else None
         | _ \<Rightarrow> None)
      else None)"
| "step c Recv s =
     (if pc s = Receiving then
        (case resultCh s of
           [] \<Rightarrow> None
         | result # rest \<Rightarrow> Some (s\<lparr>resultCh := rest, pc := Waiting result\<rparr>))
      else None)"
| "step c Finish s =
     (case pc s of
        Waiting result \<Rightarrow>
          if list_all (\<lambda>w. w = Exited) (workers s)
          then Some ((report c result s)\<lparr>ctxDone := True\<rparr>)
          else None
      | _ \<Rightarrow> None)"

text \<open>A run under a schedule, from a given state; \<open>None\<close> when a step of the schedule
  cannot be taken.\<close>

fun exec :: "conf \<Rightarrow> event list \<Rightarrow> state \<Rightarrow> state option" where
  "exec c [] s = Some s"
| "exec c (e # es) s = (case step c e s of None \<Rightarrow> None | Some s' \<Rightarrow> exec c es s')"

text \<open>The steps of a schedule that put a value into the channel, and those that take one
  out.\<close>

fun isSend :: "event \<Rightarrow> bool" where
  "isSend (Send i) = True"
| "isSend _ = False"

definition sends :: "event list \<Rightarrow> nat" where
  "sends tr = length (filter isSend tr)"

definition sendsOf :: "nat \<Rightarrow> event list \<Rightarrow> nat" where
  "sendsOf i tr = length (filter (\<lambda>e. e = Send i) tr)"

definition receives :: "event list \<Rightarrow> nat" where
  "receives tr = length (filter (\<lambda>e. e = Recv) tr)"

text \<open>The results that exist in a state: offered by a worker at its \<^verbatim>\<open>select\<close>, held in the
  channel, or received by main.\<close>

definition offered :: "state \<Rightarrow> Result \<Rightarrow> bool" where
  "offered s r =
     (r \<in> set (resultCh s) \<or> pc s = Waiting r \<or>
      (\<exists>i < length (workers s). workers s ! i = Publishing r))"



subsection \<open>A mock key source\<close>

text \<open>
  The scenario of the specification: one worker, the prefix \<^verbatim>\<open>AAA\<close> compared as it is, and
  a key source whose public keys have the addresses \<^verbatim>\<open>xyz\<close>, \<^verbatim>\<open>bbb\<close>, \<^verbatim>\<open>AAAxyz123\<close> in
  this order. The \<open>n\<close>-th key pair is the public key \<open>[n + 1]\<close> with the private key
  \<open>[n + 101]\<close>.
\<close>

definition mockEncode :: "byte list \<Rightarrow> string" where
  "mockEncode k = (if k = [1] then ''xyz'' else if k = [2] then ''bbb'' else ''AAAxyz123'')"

definition mockGenerateKey :: "nat \<Rightarrow> error + byte list \<times> byte list" where
  "mockGenerateKey n = Inr ([word_of_nat n + 1], [word_of_nat n + 101])"

definition scenario :: conf where
  "scenario = \<lparr>prefix = ''AAA'', postfix = [], caseSensitive = True, NumCPU = 1,
                Encode = mockEncode, ToLower = asciiToLower, GenerateKey = mockGenerateKey\<rparr>"

text \<open>
  Two workers and a key source whose every address matches: both workers reach the
  \<^verbatim>\<open>select\<close> of line 123 with a result. \<open>raceResult n\<close> is the result made of the \<open>n\<close>-th
  key pair of this source.
\<close>

definition race :: conf where
  "race = scenario\<lparr>NumCPU := 2, GenerateKey := (\<lambda>n. mockGenerateKey (n + 2))\<rparr>"

definition raceResult :: "nat \<Rightarrow> Result" where
  "raceResult n =
     \<lparr>Address = ''AAAxyz123'', PublicKey = [word_of_nat n + 3],
      PrivateKey = [word_of_nat n + 103]\<rparr>"

text \<open>A key source whose first call fails.\<close>

definition flaky :: conf where
  "flaky = scenario\<lparr>GenerateKey :=
             (\<lambda>n. if n = 0 then Inl EntropyError else mockGenerateKey n)\<rparr>"

subsection \<open>Facts about the match test\<close>

lemma HasPrefix_iff: "HasPrefix s p \<longleftrightarrow> (\<exists>t. s = p @ t)"
proof
  assume "HasPrefix s p"
  then have "s = p @ drop (length p) s"
    unfolding HasPrefix_def by (metis append_take_drop_id)
  then show "\<exists>t. s = p @ t" ..
next
  assume "\<exists>t. s = p @ t"
  then show "HasPrefix s p" by (auto simp: HasPrefix_def)
qed

lemma HasSuffix_iff: "HasSuffix s p \<longleftrightarrow> (\<exists>t. s = t @ p)"
proof
  assume "HasSuffix s p"
  then have "s = take (length s - length p) s @ p"
    unfolding HasSuffix_def by (metis append_take_drop_id)
  then show "\<exists>t. s = t @ p" ..
next
  assume "\<exists>t. s = t @ p"
  then show "HasSuffix s p" by (auto simp: HasSuffix_def)
qed

text \<open>
  \<^bold>\<open>C2.\<close> The match test answers true exactly when the address, lower-cased together with
  the prefix and the postfix when \<^verbatim>\<open>caseSensitive\<close> is false and taken as it is otherwise,
  starts with the prefix whenever the prefix is not empty and ends with the postfix whenever
  the postfix is not empty. An empty field asks nothing. A prefix that does not match
  decides the answer: it is false whatever the postfix is.
\<close>

theorem matches_characterised:
  "(matches c address \<longleftrightarrow>
      (prefix c \<noteq> [] \<longrightarrow> (\<exists>t. folded c address = folded c (prefix c) @ t)) \<and>
      (postfix c \<noteq> [] \<longrightarrow> (\<exists>t. folded c address = t @ folded c (postfix c)))) \<and>
   (\<forall>q. prefix c \<noteq> [] \<and> \<not> (\<exists>t. folded c address = folded c (prefix c) @ t)
        \<longrightarrow> \<not> matches (c\<lparr>postfix := q\<rparr>) address)"
  by (simp add: matches_def folded_def Let_def HasPrefix_iff HasSuffix_iff)

theorem matches_characterised_witness:
  "matches (scenario\<lparr>prefix := ''aaa'', caseSensitive := False\<rparr>) ''AAAxyz123'' \<and>
   matches (scenario\<lparr>prefix := [], postfix := ''xyz''\<rparr>) ''AAAxyz'' \<and>
   \<not> matches (scenario\<lparr>postfix := ''123''\<rparr>) ''aaaxyz123''"
proof -
  have lower: "asciiToLower ''AAAxyz123'' = ''aaaxyz123''" "asciiToLower ''aaa'' = ''aaa''"
    by (simp_all add: asciiToLower_def asciiLowerChar_def)
  have "matches (scenario\<lparr>prefix := ''aaa'', caseSensitive := False\<rparr>) ''AAAxyz123''"
    using matches_characterised
      [of "scenario\<lparr>prefix := ''aaa'', caseSensitive := False\<rparr>" "''AAAxyz123''"]
    by (simp add: folded_def scenario_def lower)
  moreover have "matches (scenario\<lparr>prefix := [], postfix := ''xyz''\<rparr>) ''AAAxyz''"
    using matches_characterised [of "scenario\<lparr>prefix := [], postfix := ''xyz''\<rparr>" "''AAAxyz''"]
    by (simp add: folded_def scenario_def append_eq_Cons_conv)
  moreover have "\<not> matches (scenario\<lparr>postfix := ''123''\<rparr>) ''aaaxyz123''"
    using matches_characterised [of "scenario\<lparr>postfix := ''123''\<rparr>" "''aaaxyz123''"]
    by (simp add: folded_def scenario_def)
  ultimately show ?thesis by simp
qed

lemma asciiLowerChar_idem: "asciiLowerChar (asciiLowerChar ch) = asciiLowerChar ch"
  by (simp add: asciiLowerChar_def)

lemma asciiToLower_idem: "asciiToLower (asciiToLower s) = asciiToLower s"
  by (simp add: asciiToLower_def asciiLowerChar_idem)

text \<open>
  \<^bold>\<open>C3.\<close> With \<^verbatim>\<open>caseSensitive\<close> false, the match test gives the same answer on an address
  and a configuration as on the lower-cased address and the configuration with its prefix
  and postfix lower-cased. \<^verbatim>\<open>strings.ToLower\<close> is a parameter here; what the proof uses of
  it is that lower-casing twice is lower-casing once, and that the empty string stays
  empty.
\<close>

theorem matches_case_folding:
  assumes "\<not> caseSensitive c"
    and "\<forall>s. ToLower c (ToLower c s) = ToLower c s"
    and "ToLower c [] = []"
  shows "matches c address = matches (lower_fields c) (ToLower c address)"
  using assms
  by (auto simp: matches_def lower_fields_def Let_def HasPrefix_iff HasSuffix_iff)

theorem matches_case_folding_witness:
  "\<not> caseSensitive (scenario\<lparr>prefix := ''aAa'', caseSensitive := False\<rparr>) \<and>
   matches (scenario\<lparr>prefix := ''aAa'', caseSensitive := False\<rparr>) ''AAAxyz123'' =
   matches (lower_fields (scenario\<lparr>prefix := ''aAa'', caseSensitive := False\<rparr>))
     (asciiToLower ''AAAxyz123'')"
  using matches_case_folding
    [of "scenario\<lparr>prefix := ''aAa'', caseSensitive := False\<rparr>" "''AAAxyz123''"]
  by (simp add: scenario_def asciiToLower_idem) (simp add: asciiToLower_def)

subsection \<open>Facts about the JSON form of the private key\<close>

lemma digit_cases:
  "d < 10 \<Longrightarrow>
   d = 0 \<or> d = 1 \<or> d = 2 \<or> d = 3 \<or> d = 4 \<or> d = 5 \<or> d = 6 \<or> d = 7 \<or> d = 8 \<or> d = (9::nat)"
  by arith

lemma isDigit_digitChar: "d < 10 \<Longrightarrow> isDigit (digitChar d)"
  using digit_cases[of d] by (auto simp: isDigit_def digitChar_def)

lemma digitValue_digitChar: "d < 10 \<Longrightarrow> digitValue (digitChar d) = d"
  using digit_cases[of d] by (auto simp: digitValue_def digitChar_def)

lemma digitChar_zero: "d < 10 \<Longrightarrow> digitChar d = CHR ''0'' \<longleftrightarrow> d = 0"
  using digit_cases[of d] by (auto simp: digitChar_def)

lemma isDigit_not_space: "isDigit ch \<Longrightarrow> \<not> isSpace ch"
  by (auto simp: isDigit_def isSpace_def)

lemma decimal_nonempty: "decimal n \<noteq> []"
  by (subst decimal.simps) simp

lemma decimal_digits: "\<forall>ch \<in> set (decimal n). isDigit ch"
proof (induction n rule: decimal.induct)
  case (1 n)
  show ?case
  proof (cases "n < 10")
    case True
    then show ?thesis by (subst decimal.simps) (simp add: isDigit_digitChar)
  next
    case False
    with 1 show ?thesis by (subst decimal.simps) (simp add: isDigit_digitChar)
  qed
qed

lemma decimal_value: "foldl (\<lambda>a d. 10 * a + digitValue d) 0 (decimal n) = n"
proof (induction n rule: decimal.induct)
  case (1 n)
  show ?case
  proof (cases "n < 10")
    case True
    then show ?thesis by (subst decimal.simps) (simp add: digitValue_digitChar)
  next
    case False
    with 1 show ?thesis by (subst decimal.simps) (simp add: digitValue_digitChar)
  qed
qed

lemma decimal_hd: "0 < n \<Longrightarrow> hd (decimal n) \<noteq> CHR ''0''"
proof (induction n rule: decimal.induct)
  case (1 n)
  show ?case
  proof (cases "n < 10")
    case True
    with 1(2) show ?thesis by (subst decimal.simps) (simp add: digitChar_zero)
  next
    case False
    then have "0 < n div 10" by simp
    with 1 False show ?thesis by (subst decimal.simps) (simp add: decimal_nonempty)
  qed
qed

lemma decimal_length: "1 < length (decimal n) \<Longrightarrow> 0 < n"
  by (cases "n = 0") (simp_all add: decimal.simps)

lemma parseByte_decimal:
  assumes "rest = [] \<or> \<not> isDigit (hd rest)"
  shows "parseByte (decimal (unat (b::byte)) @ rest) = Some (b, rest)"
proof -
  let ?ds = "decimal (unat b)"
  have tw: "takeWhile isDigit (?ds @ rest) = ?ds"
    using assms decimal_digits[of "unat b"] by (cases rest) simp_all
  have dw: "dropWhile isDigit (?ds @ rest) = rest"
    using assms decimal_digits[of "unat b"] by (cases rest) simp_all
  have "unat b < 2 ^ LENGTH(8)"
    by (rule unsigned_less)
  then have small: "\<not> unat b > 255"
    by simp
  have lead: "\<not> (length ?ds > 1 \<and> hd ?ds = CHR ''0'')"
    using decimal_length decimal_hd by blast
  show ?thesis
    unfolding parseByte_def Let_def tw dw decimal_value
    using small lead decimal_nonempty by simp
qed

lemma formatInt_uint: "formatInt (uint (b::byte)) = decimal (unat b)"
  by (simp add: formatInt_def)

lemma skipSpace_decimal: "skipSpace (decimal n @ rest) = decimal n @ rest"
proof -
  obtain d ds where "decimal n = d # ds"
    using decimal_nonempty by (cases "decimal n") auto
  moreover from this have "isDigit d"
    using decimal_digits[of n] by simp
  ultimately show ?thesis
    by (simp add: skipSpace_def isDigit_not_space)
qed

lemma skipSpace_indent:
  "skipSpace (CHR 0x0A # CHR '' '' # CHR '' '' # decimal n @ rest) = decimal n @ rest"
  using skipSpace_decimal[of n rest] by (simp add: skipSpace_def isSpace_def)

lemma parseElements_rendered:
  "parseElements (indentedElements (map uint (b # bs)) @ [CHR 0x0A] @ '']'') = Some (b # bs)"
proof (induction bs arbitrary: b)
  case Nil
  show ?case
    by (subst parseElements.simps)
       (simp add: formatInt_uint skipSpace_indent parseByte_decimal isDigit_def,
        simp add: skipSpace_def isSpace_def)
next
  case (Cons b' bs)
  have "parseElements (indentedElements (map uint (b # b' # bs)) @ [CHR 0x0A] @ '']'') =
        map_option ((#) b)
          (parseElements (indentedElements (map uint (b' # bs)) @ [CHR 0x0A] @ '']''))"
    by (subst parseElements.simps)
       (simp add: formatInt_uint skipSpace_indent parseByte_decimal isDigit_def,
        simp add: skipSpace_def isSpace_def)
  then show ?case
    using Cons.IH[of b'] by simp
qed

lemma parseByteArray_MarshalIndent:
  assumes "MarshalIndent (map uint bs) = Inr js"
  shows "parseByteArray js = Some bs"
proof (cases bs)
  case Nil
  with assms show ?thesis
    by (auto simp: MarshalIndent_def parseByteArray_def skipSpace_def isSpace_def)
next
  case (Cons b bs')
  with assms have js:
    "js = CHR ''['' # indentedElements (map uint (b # bs')) @ [CHR 0x0A] @ '']''"
    by (simp add: MarshalIndent_def)
  have "\<exists>t. indentedElements (map uint (b # bs')) =
             CHR 0x0A # CHR '' '' # CHR '' '' # decimal (unat b) @ t"
    by (cases bs') (simp_all add: formatInt_uint)
  then obtain t where t:
    "indentedElements (map uint (b # bs')) =
       CHR 0x0A # CHR '' '' # CHR '' '' # decimal (unat b) @ t"
    by blast
  obtain d ds where d: "decimal (unat b) = d # ds"
    using decimal_nonempty by (cases "decimal (unat b)") auto
  then have "isDigit d"
    using decimal_digits[of "unat b"] by simp
  then have bracket: "d \<noteq> CHR '']''"
    by (auto simp: isDigit_def)
  have sk: "skipSpace (indentedElements (map uint (b # bs')) @ [CHR 0x0A] @ '']'') =
            d # ds @ t @ [CHR 0x0A] @ '']''"
    unfolding t using skipSpace_indent[of "unat b" "t @ [CHR 0x0A] @ '']''"] d by simp
  show ?thesis
    unfolding js parseByteArray_def
    using sk bracket parseElements_rendered[of b bs'] Cons
    by (simp add: skipSpace_def isSpace_def)
qed

lemma privateKeyToJSON_example:
  "privateKeyToJSON [1, 20, 255] =
     Inr (''['' @ [CHR 0x0A] @ ''  1,'' @ [CHR 0x0A] @ ''  20,'' @ [CHR 0x0A] @ ''  255'' @
          [CHR 0x0A] @ '']'') \<and>
   privateKeyToJSON [] = Inr ''[]''"
  by code_simp

lemma privateKeyToJSON_total: "\<exists>js. privateKeyToJSON k = Inr js"
  by (simp add: privateKeyToJSON_def MarshalIndent_def Let_def)

text \<open>
  \<^bold>\<open>C8.\<close> For every private key, \<^verbatim>\<open>privateKeyToJSON\<close> returns a text, and reading that text
  as a JSON array of byte values gives the bytes of the key back, all of them and in their
  order.
\<close>

theorem json_round_trip:
  "\<exists>js. privateKeyToJSON privateKey = Inr js \<and> parseByteArray js = Some privateKey"
  using parseByteArray_MarshalIndent[of privateKey]
  by (auto simp: privateKeyToJSON_def Let_def MarshalIndent_def)

subsection \<open>Facts about runs\<close>

lemma exec_append:
  "exec c (tr @ tr') s = (case exec c tr s of None \<Rightarrow> None | Some s' \<Rightarrow> exec c tr' s')"
  by (induction tr arbitrary: s) (auto split: option.splits)

lemma exec_snoc:
  "exec c (tr @ [e]) s = (case exec c tr s of None \<Rightarrow> None | Some s' \<Rightarrow> step c e s')"
  by (simp add: exec_append split: option.splits)

text \<open>What holds at the start and is kept by every step holds after every schedule.\<close>

lemma exec_invariant:
  assumes "exec c tr s0 = Some s"
    and "P s0"
    and "\<And>e s s'. P s \<Longrightarrow> step c e s = Some s' \<Longrightarrow> P s'"
  shows "P s"
  using assms(1,2)
proof (induction tr arbitrary: s0)
  case Nil
  then show ?case by simp
next
  case (Cons e tr)
  then show ?case
    using assms(3) by (auto split: option.splits)
qed

text \<open>The same for a property of the schedule and the state it leads to.\<close>

lemma exec_trace_invariant:
  assumes "exec c tr s0 = Some s"
    and "P [] s0"
    and "\<And>tr e s s'. P tr s \<Longrightarrow> step c e s = Some s' \<Longrightarrow> P (tr @ [e]) s'"
  shows "P tr s"
  using assms(1)
proof (induction tr arbitrary: s rule: rev_induct)
  case Nil
  then show ?case
    using assms(2) by simp
next
  case (snoc e tr)
  then show ?case
    using assms(3) by (auto simp: exec_snoc split: option.splits)
qed

lemma report_pc: "pc (report c r s) = Returned None"
  using privateKeyToJSON_total[of "PrivateKey r"] by (auto simp: report_def Let_def)

lemma report_stdout:
  "\<exists>js. privateKeyToJSON (PrivateKey r) = Inr js \<and>
     stdout (report c r s) = stdout s @
       [FoundAddress (Address r), Attempts (sint (totalIterations s)),
        PublicKeyBase58 (Encode c (PublicKey r)), PrivateKeyBase58 (Encode c (PrivateKey r)),
        PrivateKeyJSON js]"
  using privateKeyToJSON_total[of "PrivateKey r"] by (auto simp: report_def Let_def)

lemma report_rest:
  "workers (report c r s) = workers s"
  "resultCh (report c r s) = resultCh s"
  "calls (report c r s) = calls s"
  "totalIterations (report c r s) = totalIterations s"
  "ctxDone (report c r s) = ctxDone s"
  using privateKeyToJSON_total[of "PrivateKey r"] by (auto simp: report_def Let_def)

lemma rejected_states:
  assumes "prefix c = []" and "postfix c = []" and "exec c tr boot = Some s"
  shows "s = boot \<or> s = boot\<lparr>pc := Returned (Some PatternMissing)\<rparr>"
proof (rule exec_invariant[OF assms(3)])
  show "boot = boot \<or> boot = boot\<lparr>pc := Returned (Some PatternMissing)\<rparr>"
    by simp
next
  fix e s s'
  assume "s = boot \<or> s = boot\<lparr>pc := Returned (Some PatternMissing)\<rparr>"
    and "step c e s = Some s'"
  then show "s' = boot \<or> s' = boot\<lparr>pc := Returned (Some PatternMissing)\<rparr>"
    using assms(1,2) by (cases e) (auto simp: boot_def split: if_splits)
qed

text \<open>
  \<^bold>\<open>C4.\<close> When the prefix and the postfix are both empty, the first step of the run returns
  the error of line 69, and that is all the run does: under every schedule no worker is
  started, no key is generated, the counter stays 0 and nothing is printed.
\<close>

theorem empty_pattern_rejected:
  assumes "prefix c = []" and "postfix c = []" and "exec c tr boot = Some s"
  shows "step c Start boot = Some (boot\<lparr>pc := Returned (Some PatternMissing)\<rparr>) \<and>
         (s = boot \<or> s = boot\<lparr>pc := Returned (Some PatternMissing)\<rparr>) \<and>
         workers s = [] \<and> calls s = 0 \<and> totalIterations s = 0 \<and> stdout s = [] \<and>
         (\<forall>i. step c (Iterate i) s = None)"
  using rejected_states[OF assms] assms(1,2)
  by (auto simp: boot_def)

theorem empty_pattern_rejected_witness:
  "prefix (scenario\<lparr>prefix := []\<rparr>) = [] \<and> postfix (scenario\<lparr>prefix := []\<rparr>) = [] \<and>
   exec (scenario\<lparr>prefix := []\<rparr>) [Start] boot =
     Some (boot\<lparr>pc := Returned (Some PatternMissing)\<rparr>) \<and>
   workers (boot\<lparr>pc := Returned (Some PatternMissing)\<rparr>) = [] \<and>
   calls (boot\<lparr>pc := Returned (Some PatternMissing)\<rparr>) = 0"
proof -
  have run: "exec (scenario\<lparr>prefix := []\<rparr>) [Start] boot =
             Some (boot\<lparr>pc := Returned (Some PatternMissing)\<rparr>)"
    by (simp add: scenario_def boot_def)
  show ?thesis
    using empty_pattern_rejected[OF _ _ run] run by (simp add: scenario_def)
qed

subsection \<open>What every run keeps\<close>

lemma returned_error:
  assumes "exec c tr boot = Some s"
  shows "\<forall>e. pc s = Returned (Some e) \<longrightarrow> e = PatternMissing \<and> prefix c = [] \<and> postfix c = []"
proof (rule exec_invariant[OF assms])
  show "\<forall>e. pc boot = Returned (Some e) \<longrightarrow>
          e = PatternMissing \<and> prefix c = [] \<and> postfix c = []"
    by (simp add: boot_def)
next
  fix e s s'
  assume "\<forall>e. pc s = Returned (Some e) \<longrightarrow>
            e = PatternMissing \<and> prefix c = [] \<and> postfix c = []"
    and "step c e s = Some s'"
  then show "\<forall>e. pc s' = Returned (Some e) \<longrightarrow>
               e = PatternMissing \<and> prefix c = [] \<and> postfix c = []"
    by (cases e)
       (auto simp: spawn_def report_pc Let_def
             split: if_splits wpc.splits list.splits mpc.splits)
qed



lemma no_error_once_started:
  assumes "exec c tr boot = Some s" and "prefix c \<noteq> [] \<or> postfix c \<noteq> []"
    and "exec c tr' s = Some s'"
  shows "pc s' \<noteq> Returned (Some e)"
proof -
  have "exec c (tr @ tr') boot = Some s'"
    using assms(1,3) by (simp add: exec_append)
  from returned_error[OF this] assms(2) show ?thesis
    by auto
qed

text \<open>
  \<^bold>\<open>C6.\<close> In a run, when the key generation of a worker's iteration fails, the step counts
  the attempt and puts the worker back at the top of its loop, where its next iteration
  begins; the channel, the context, the output, main and the other workers are as before.
  No error is returned by the run from there on, under any schedule.
\<close>

theorem keygen_failure_absorbed:
  assumes "exec c tr boot = Some s"
    and "i < length (workers s)" and "workers s ! i = Generating"
    and "GenerateKey c (calls s) = Inl err"
  shows "step c (Iterate i) s =
           Some (s\<lparr>totalIterations := totalIterations s + 1, calls := Suc (calls s),
                   workers := (workers s)[i := LoopTop]\<rparr>) \<and>
         step c (Poll i) (s\<lparr>totalIterations := totalIterations s + 1, calls := Suc (calls s),
                   workers := (workers s)[i := LoopTop]\<rparr>) =
           Some (s\<lparr>totalIterations := totalIterations s + 1, calls := Suc (calls s),
                   workers := (workers s)[i := (if ctxDone s then Exited else Generating)]\<rparr>) \<and>
         (\<forall>tr' s' e. exec c (Iterate i # tr') s = Some s' \<longrightarrow> pc s' \<noteq> Returned (Some e))"
proof -
  have started: "prefix c \<noteq> [] \<or> postfix c \<noteq> []"
    using rejected_states[OF _ _ assms(1)] assms(2) by (auto simp: boot_def)
  have later: "pc s' \<noteq> Returned (Some e)" if "exec c (Iterate i # tr') s = Some s'" for tr' s' e
    using no_error_once_started[OF assms(1) started that] .
  show ?thesis
    using assms later by (auto simp: iteration_def)
qed

lemma flaky_run:
  "exec flaky [Start, Poll 0] boot =
     Some \<lparr>pc = Receiving, workers = [Generating], totalIterations = 0, resultCh = [],
            ctxDone = False, stdout = [Started], calls = 0\<rparr>"
  by code_simp

theorem keygen_failure_absorbed_witness:
  "exec flaky [Start, Poll 0] boot =
     Some \<lparr>pc = Receiving, workers = [Generating], totalIterations = 0, resultCh = [],
            ctxDone = False, stdout = [Started], calls = 0\<rparr> \<and>
   GenerateKey flaky 0 = Inl EntropyError \<and>
   step flaky (Iterate 0)
     \<lparr>pc = Receiving, workers = [Generating], totalIterations = 0, resultCh = [],
      ctxDone = False, stdout = [Started], calls = 0\<rparr> =
     Some \<lparr>pc = Receiving, workers = [LoopTop], totalIterations = 1, resultCh = [],
            ctxDone = False, stdout = [Started], calls = 1\<rparr>"
proof -
  have fails: "GenerateKey flaky 0 = Inl EntropyError"
    by (simp add: flaky_def)
  from keygen_failure_absorbed[OF flaky_run, of 0 EntropyError] fails flaky_run
  show ?thesis
    by simp
qed




text \<open>
  The loop of line 86 is the only use of the number, and nothing compares it with 0: in the
  model, where the number is a parameter, a value of 0 makes main print its first line and
  wait at the receive with no worker started. The Go runtime never returns such a value.
\<close>

lemma no_check_of_the_count:
  "exec (scenario\<lparr>NumCPU := 0\<rparr>) [Start] boot =
     Some (boot\<lparr>stdout := [Started], pc := Receiving\<rparr>)"
  by (simp add: scenario_def boot_def spawn_def)

subsection \<open>Results and the report\<close>

lemma iteration_result:
  assumes "iteration c n = Some r"
  shows "Address r = Encode c (PublicKey r) \<and> matches c (Address r) \<and>
         GenerateKey c n = Inr (PublicKey r, PrivateKey r)"
  using assms by (auto simp: iteration_def Let_def split: sum.splits prod.splits if_splits)

text \<open>A step makes no result but the one of the iteration it runs.\<close>

lemma offered_step:
  assumes "step c e s = Some s'" and "offered s' r"
  shows "offered s r \<and> calls s \<le> calls s' \<or>
         iteration c (calls s) = Some r \<and> calls s' = Suc (calls s)"
proof (cases e)
  case Start
  with assms show ?thesis
    by (auto simp: spawn_def Let_def offered_def split: if_splits)
next
  case (Poll i)
  with assms show ?thesis
    by (auto simp: offered_def nth_list_update split: if_splits)
next
  case (Iterate i)
  with assms show ?thesis
    by (auto simp: offered_def nth_list_update split: if_splits option.splits)
next
  case (Send i)
  with assms show ?thesis
    by (auto simp: offered_def nth_list_update split: if_splits wpc.splits)
next
  case (Cancel i)
  with assms show ?thesis
    by (auto simp: offered_def nth_list_update split: if_splits)
next
  case (Quit i)
  with assms show ?thesis
    by (auto simp: offered_def nth_list_update split: if_splits wpc.splits)
next
  case Recv
  with assms show ?thesis
    by (auto simp: offered_def split: if_splits list.splits)
next
  case Finish
  with assms show ?thesis
    by (auto simp: offered_def report_pc report_rest split: if_splits mpc.splits)
qed

lemma offered_origin:
  assumes "exec c tr boot = Some s"
  shows "\<forall>r. offered s r \<longrightarrow> (\<exists>n < calls s. iteration c n = Some r)"
proof (rule exec_invariant[OF assms])
  show "\<forall>r. offered boot r \<longrightarrow> (\<exists>n < calls boot. iteration c n = Some r)"
    by (simp add: boot_def offered_def)
next
  fix e s s'
  assume inv: "\<forall>r. offered s r \<longrightarrow> (\<exists>n < calls s. iteration c n = Some r)"
    and st: "step c e s = Some s'"
  show "\<forall>r. offered s' r \<longrightarrow> (\<exists>n < calls s'. iteration c n = Some r)"
  proof (intro allI impI)
    fix r
    assume "offered s' r"
    from offered_step[OF st this] show "\<exists>n < calls s'. iteration c n = Some r"
    proof
      assume old: "offered s r \<and> calls s \<le> calls s'"
      with inv obtain n where "n < calls s" "iteration c n = Some r"
        by blast
      with old show ?thesis
        by (intro exI[of _ n]) simp
    next
      assume "iteration c (calls s) = Some r \<and> calls s' = Suc (calls s)"
      then show ?thesis
        by (intro exI[of _ "calls s"]) simp
    qed
  qed
qed

lemma offered_wellformed:
  assumes "exec c tr boot = Some s" and "offered s r"
  shows "Address r = Encode c (PublicKey r) \<and> matches c (Address r)"
  using offered_origin[OF assms(1)] assms(2) iteration_result[of c _ r] by blast

lemma stdout_started:
  assumes "exec c tr boot = Some s"
  shows "(pc s = Starting \<longrightarrow> stdout s = []) \<and>
         (pc s = Receiving \<or> (\<exists>r. pc s = Waiting r) \<longrightarrow> stdout s = [Started])"
proof (rule exec_invariant[OF assms])
  show "(pc boot = Starting \<longrightarrow> stdout boot = []) \<and>
        (pc boot = Receiving \<or> (\<exists>r. pc boot = Waiting r) \<longrightarrow> stdout boot = [Started])"
    by (simp add: boot_def)
next
  fix e s s'
  assume "(pc s = Starting \<longrightarrow> stdout s = []) \<and>
          (pc s = Receiving \<or> (\<exists>r. pc s = Waiting r) \<longrightarrow> stdout s = [Started])"
    and "step c e s = Some s'"
  then show "(pc s' = Starting \<longrightarrow> stdout s' = []) \<and>
             (pc s' = Receiving \<or> (\<exists>r. pc s' = Waiting r) \<longrightarrow> stdout s' = [Started])"
    by (cases e)
       (auto simp: spawn_def Let_def report_pc
             split: if_splits wpc.splits list.splits mpc.splits)
qed

text \<open>
  Once main has returned without an error every worker has returned, and the output is
  the report of a result some iteration made, with the counter as it stands.
\<close>

lemma final_report:
  assumes "exec c tr boot = Some s" and "pc s = Returned None"
  shows "list_all (\<lambda>w. w = Exited) (workers s) \<and>
         (\<exists>r js n. n < calls s \<and> iteration c n = Some r \<and>
            privateKeyToJSON (PrivateKey r) = Inr js \<and>
            stdout s = [Started, FoundAddress (Address r), Attempts (sint (totalIterations s)),
                        PublicKeyBase58 (Encode c (PublicKey r)),
                        PrivateKeyBase58 (Encode c (PrivateKey r)), PrivateKeyJSON js])"
    (is "?Q s")
  using assms
proof (induction tr arbitrary: s rule: rev_induct)
  case Nil
  then show ?case
    by (auto simp: boot_def)
next
  case (snoc e tr)
  then obtain s0 where s0: "exec c tr boot = Some s0" "step c e s0 = Some s"
    by (auto simp: exec_snoc split: option.splits)
  have idle: "?Q s0 \<Longrightarrow> i < length (workers s0) \<Longrightarrow> workers s0 ! i = Exited" for i
    by (simp add: list_all_length)
  show ?case
  proof (cases e)
    case Start
    with s0(2) snoc.prems(2) show ?thesis
      by (auto simp: spawn_def Let_def split: if_splits)
  next
    case (Poll i)
    with s0(2) snoc.prems(2) have "pc s0 = Returned None" "i < length (workers s0)"
        "workers s0 ! i = LoopTop"
      by (auto split: if_splits)
    with idle[OF snoc.IH[OF s0(1)], of i] show ?thesis
      by simp
  next
    case (Iterate i)
    with s0(2) snoc.prems(2) have "pc s0 = Returned None" "i < length (workers s0)"
        "workers s0 ! i = Generating"
      by (auto split: if_splits)
    with idle[OF snoc.IH[OF s0(1)], of i] show ?thesis
      by simp
  next
    case (Send i)
    with s0(2) snoc.prems(2) have "pc s0 = Returned None" "i < length (workers s0)"
        "\<exists>r. workers s0 ! i = Publishing r"
      by (auto split: if_splits wpc.splits)
    with idle[OF snoc.IH[OF s0(1)], of i] show ?thesis
      by auto
  next
    case (Cancel i)
    with s0(2) snoc.prems(2) have "pc s0 = Returned None" "i < length (workers s0)"
        "workers s0 ! i = Cancelling"
      by (auto split: if_splits)
    with idle[OF snoc.IH[OF s0(1)], of i] show ?thesis
      by simp
  next
    case (Quit i)
    with s0(2) snoc.prems(2) have "pc s0 = Returned None" "i < length (workers s0)"
        "\<exists>r. workers s0 ! i = Publishing r"
      by (auto split: if_splits wpc.splits)
    with idle[OF snoc.IH[OF s0(1)], of i] show ?thesis
      by auto
  next
    case Recv
    with s0(2) snoc.prems(2) show ?thesis
      by (auto split: if_splits list.splits)
  next
    case Finish
    then obtain r where r: "pc s0 = Waiting r" "s = (report c r s0)\<lparr>ctxDone := True\<rparr>"
        "list_all (\<lambda>w. w = Exited) (workers s0)"
      using s0(2) by (auto split: mpc.splits if_splits)
    then have "offered s0 r"
      by (simp add: offered_def)
    with offered_origin[OF s0(1)] obtain n where n: "n < calls s0" "iteration c n = Some r"
      by blast
    have out: "stdout s0 = [Started]"
      using stdout_started[OF s0(1)] r(1) by auto
    from report_stdout[of r c s0] obtain js where js: "privateKeyToJSON (PrivateKey r) = Inr js"
      "stdout (report c r s0) = stdout s0 @
       [FoundAddress (Address r), Attempts (sint (totalIterations s0)),
        PublicKeyBase58 (Encode c (PublicKey r)), PrivateKeyBase58 (Encode c (PrivateKey r)),
        PrivateKeyJSON js]"
      by blast
    show ?thesis
      unfolding r(2) using r(3) n js out report_rest[of c r s0]
      by auto
  qed
qed


lemma scenario_run_received:
  "exec scenario [Start, Poll 0, Iterate 0, Poll 0, Iterate 0, Poll 0, Iterate 0, Send 0,
                  Cancel 0, Recv] boot =
     Some \<lparr>pc = Waiting \<lparr>Address = ''AAAxyz123'', PublicKey = [3], PrivateKey = [103]\<rparr>,
            workers = [Exited], totalIterations = 3, resultCh = [], ctxDone = True,
            stdout = [Started], calls = 3\<rparr>"
  by code_simp

text \<open>
  \<^bold>\<open>C9.\<close> \<^verbatim>\<open>privateKeyToJSON\<close> returns a text for every private key, never an error. So no
  run returns the error of line 150, and once main holds a result and all workers have
  returned, the last step prints all five lines of the report and returns \<^verbatim>\<open>nil\<close>.
\<close>

theorem json_never_fails:
  "(\<exists>js. privateKeyToJSON privateKey = Inr js) \<and>
   (\<forall>tr s. exec c tr boot = Some s \<longrightarrow>
      (\<forall>err. pc s \<noteq> Returned (Some (JSONConversionFailed err))) \<and>
      (\<forall>r. pc s = Waiting r \<and> list_all (\<lambda>w. w = Exited) (workers s) \<longrightarrow>
         (\<exists>s' js. step c Finish s = Some s' \<and> pc s' = Returned None \<and>
            privateKeyToJSON (PrivateKey r) = Inr js \<and>
            stdout s' = stdout s @
              [FoundAddress (Address r), Attempts (sint (totalIterations s)),
               PublicKeyBase58 (Encode c (PublicKey r)),
               PrivateKeyBase58 (Encode c (PrivateKey r)), PrivateKeyJSON js])))"
proof (intro conjI allI impI)
  show "\<exists>js. privateKeyToJSON privateKey = Inr js"
    by (rule privateKeyToJSON_total)
next
  fix tr s err
  assume "exec c tr boot = Some s"
  from returned_error[OF this] show "pc s \<noteq> Returned (Some (JSONConversionFailed err))"
    by auto
next
  fix tr s r
  assume "exec c tr boot = Some s"
    and "pc s = Waiting r \<and> list_all (\<lambda>w. w = Exited) (workers s)"
  then show "\<exists>s' js. step c Finish s = Some s' \<and> pc s' = Returned None \<and>
            privateKeyToJSON (PrivateKey r) = Inr js \<and>
            stdout s' = stdout s @
              [FoundAddress (Address r), Attempts (sint (totalIterations s)),
               PublicKeyBase58 (Encode c (PublicKey r)),
               PrivateKeyBase58 (Encode c (PrivateKey r)), PrivateKeyJSON js]"
    using report_stdout[of r c s] report_pc[of c r s] by auto
qed

theorem json_never_fails_witness:
  "exec scenario [Start, Poll 0, Iterate 0, Poll 0, Iterate 0, Poll 0, Iterate 0, Send 0,
                  Cancel 0, Recv] boot =
     Some \<lparr>pc = Waiting \<lparr>Address = ''AAAxyz123'', PublicKey = [3], PrivateKey = [103]\<rparr>,
            workers = [Exited], totalIterations = 3, resultCh = [], ctxDone = True,
            stdout = [Started], calls = 3\<rparr> \<and>
   (\<exists>s' js. step scenario Finish
        \<lparr>pc = Waiting \<lparr>Address = ''AAAxyz123'', PublicKey = [3], PrivateKey = [103]\<rparr>,
         workers = [Exited], totalIterations = 3, resultCh = [], ctxDone = True,
         stdout = [Started], calls = 3\<rparr> = Some s' \<and>
      pc s' = Returned None \<and> privateKeyToJSON [103] = Inr js \<and>
      stdout s' = [Started, FoundAddress ''AAAxyz123'', Attempts 3,
                   PublicKeyBase58 ''AAAxyz123'', PrivateKeyBase58 ''AAAxyz123'',
                   PrivateKeyJSON js])"
proof -
  from json_never_fails[of "[]" scenario] scenario_run_received
  have "\<exists>s' js. step scenario Finish
        \<lparr>pc = Waiting \<lparr>Address = ''AAAxyz123'', PublicKey = [3], PrivateKey = [103]\<rparr>,
         workers = [Exited], totalIterations = 3, resultCh = [], ctxDone = True,
         stdout = [Started], calls = 3\<rparr> = Some s' \<and>
      pc s' = Returned None \<and> privateKeyToJSON [103] = Inr js \<and>
      stdout s' = [Started] @ [FoundAddress ''AAAxyz123'', Attempts (sint (3 :: 64 word)),
                   PublicKeyBase58 (Encode scenario [3]), PrivateKeyBase58 (Encode scenario [103]),
                   PrivateKeyJSON js]"
    by fastforce
  then show ?thesis
    using scenario_run_received by (simp add: scenario_def mockEncode_def)
qed

text \<open>
  \<^bold>\<open>C10.\<close> In every state of a run, every result that exists (offered by a worker, in the
  channel, or received by main) has as its address the encoding of its public key. So in
  the report of a finished run the line of the public key repeats the found address.
\<close>

theorem report_repeats_address:
  assumes "exec c tr boot = Some s"
  shows "(\<forall>r. offered s r \<longrightarrow> Encode c (PublicKey r) = Address r) \<and>
         (pc s = Returned None \<longrightarrow>
            (\<exists>(r::Result) js. stdout s =
               [Started, FoundAddress (Address r), Attempts (sint (totalIterations s)),
                PublicKeyBase58 (Address r), PrivateKeyBase58 (Encode c (PrivateKey r)),
                PrivateKeyJSON js]))"
proof (intro conjI allI impI)
  fix r
  assume "offered s r"
  from offered_wellformed[OF assms this] show "Encode c (PublicKey r) = Address r"
    by simp
next
  assume "pc s = Returned None"
  from final_report[OF assms this] obtain r js n where r: "iteration c n = Some r"
    "stdout s = [Started, FoundAddress (Address r), Attempts (sint (totalIterations s)),
                 PublicKeyBase58 (Encode c (PublicKey r)),
                 PrivateKeyBase58 (Encode c (PrivateKey r)), PrivateKeyJSON js]"
    by blast
  from iteration_result[OF r(1)] have "Encode c (PublicKey r) = Address r"
    by simp
  with r(2) have "stdout s =
               [Started, FoundAddress (Address r), Attempts (sint (totalIterations s)),
                PublicKeyBase58 (Address r), PrivateKeyBase58 (Encode c (PrivateKey r)),
                PrivateKeyJSON js]"
    by simp
  then show "\<exists>(r::Result) js. stdout s =
               [Started, FoundAddress (Address r), Attempts (sint (totalIterations s)),
                PublicKeyBase58 (Address r), PrivateKeyBase58 (Encode c (PrivateKey r)),
                PrivateKeyJSON js]"
    by blast
qed

theorem report_repeats_address_witness:
  "exec scenario [Start, Poll 0, Iterate 0, Poll 0, Iterate 0, Poll 0, Iterate 0, Send 0,
                  Cancel 0, Recv] boot =
     Some \<lparr>pc = Waiting \<lparr>Address = ''AAAxyz123'', PublicKey = [3], PrivateKey = [103]\<rparr>,
            workers = [Exited], totalIterations = 3, resultCh = [], ctxDone = True,
            stdout = [Started], calls = 3\<rparr> \<and>
   offered \<lparr>pc = Waiting \<lparr>Address = ''AAAxyz123'', PublicKey = [3], PrivateKey = [103]\<rparr>,
            workers = [Exited], totalIterations = 3, resultCh = [], ctxDone = True,
            stdout = [Started], calls = 3\<rparr>
     \<lparr>Address = ''AAAxyz123'', PublicKey = [3], PrivateKey = [103]\<rparr> \<and>
   Encode scenario (PublicKey \<lparr>Address = ''AAAxyz123'', PublicKey = [3], PrivateKey = [103]\<rparr>) =
     Address \<lparr>Address = ''AAAxyz123'', PublicKey = [3], PrivateKey = [103]\<rparr>"
proof -
  have off: "offered \<lparr>pc = Waiting \<lparr>Address = ''AAAxyz123'', PublicKey = [3], PrivateKey = [103]\<rparr>,
            workers = [Exited], totalIterations = 3, resultCh = [], ctxDone = True,
            stdout = [Started], calls = 3\<rparr>
     \<lparr>Address = ''AAAxyz123'', PublicKey = [3], PrivateKey = [103]\<rparr>"
    by (simp add: offered_def)
  note enc = report_repeats_address[OF scenario_run_received, THEN conjunct1, THEN spec,
      THEN mp, OF off]
  from scenario_run_received off enc show ?thesis
    by (intro conjI)
qed

subsection \<open>One result reaches main\<close>

lemma counts_snoc:
  "sends (tr @ [e]) = sends tr + (if isSend e then 1 else 0)"
  "receives (tr @ [e]) = receives tr + (if e = Recv then 1 else 0)"
  "sendsOf i (tr @ [e]) = sendsOf i tr + (if e = Send i then 1 else 0)"
  by (simp_all add: sends_def receives_def sendsOf_def)

text \<open>Every value put into the channel is in its buffer or was received, and main's place
  tells whether it has received.\<close>

lemma channel_invariant:
  assumes "exec c tr boot = Some s"
  shows "length (resultCh s) \<le> 1 \<and>
         sends tr = receives tr + length (resultCh s) \<and>
         receives tr = (case pc s of Starting \<Rightarrow> 0 | Receiving \<Rightarrow> 0 | Waiting r \<Rightarrow> 1
                        | Returned e \<Rightarrow> (case e of None \<Rightarrow> 1 | Some x \<Rightarrow> 0))"
    (is "?P tr s")
proof (rule exec_trace_invariant[OF assms, where P = ?P])
  show "?P [] boot"
    by (simp add: boot_def sends_def receives_def)
next
  fix tr e s s'
  assume inv: "?P tr s" and st: "step c e s = Some s'"
  show "?P (tr @ [e]) s'"
  proof (cases e)
    case Start
    with inv st show ?thesis
      by (auto simp: counts_snoc spawn_def Let_def split: if_splits)
  next
    case (Poll i)
    with inv st show ?thesis
      by (auto simp: counts_snoc split: if_splits)
  next
    case (Iterate i)
    with inv st show ?thesis
      by (auto simp: counts_snoc split: if_splits)
  next
    case (Send i)
    with inv st show ?thesis
      by (auto simp: counts_snoc split: if_splits wpc.splits)
  next
    case (Cancel i)
    with inv st show ?thesis
      by (auto simp: counts_snoc split: if_splits)
  next
    case (Quit i)
    with inv st show ?thesis
      by (auto simp: counts_snoc split: if_splits wpc.splits)
  next
    case Recv
    with inv st show ?thesis
      by (auto simp: counts_snoc split: if_splits list.splits mpc.splits)
  next
    case Finish
    with inv st show ?thesis
      by (auto simp: counts_snoc report_pc report_rest split: if_splits mpc.splits)
  qed
qed

text \<open>A worker that has sent stands behind its send for good.\<close>

lemma sender_invariant:
  assumes "exec c tr boot = Some s"
  shows "(pc s = Starting \<longrightarrow> workers s = []) \<and>
         sendsOf i tr \<le> 1 \<and>
         (sendsOf i tr = 1 \<longrightarrow> i < length (workers s) \<and>
            (workers s ! i = Cancelling \<or> workers s ! i = Exited))"
    (is "?P tr s")
proof (rule exec_trace_invariant[OF assms, where P = ?P])
  show "?P [] boot"
    by (simp add: boot_def sendsOf_def)
next
  fix tr e s s'
  assume inv: "?P tr s" and st: "step c e s = Some s'"
  show "?P (tr @ [e]) s'"
  proof (cases e)
    case Start
    with inv st show ?thesis
      by (auto simp: counts_snoc spawn_def Let_def split: if_splits)
  next
    case (Poll j)
    with inv st show ?thesis
      by (auto simp: counts_snoc nth_list_update split: if_splits)
  next
    case (Iterate j)
    with inv st show ?thesis
      by (auto simp: counts_snoc nth_list_update split: if_splits)
  next
    case (Send j)
    with inv st show ?thesis
      by (auto simp: counts_snoc nth_list_update split: if_splits wpc.splits)
  next
    case (Cancel j)
    with inv st show ?thesis
      by (auto simp: counts_snoc nth_list_update split: if_splits)
  next
    case (Quit j)
    with inv st show ?thesis
      by (auto simp: counts_snoc nth_list_update split: if_splits wpc.splits)
  next
    case Recv
    with inv st show ?thesis
      by (auto simp: counts_snoc split: if_splits list.splits)
  next
    case Finish
    with inv st show ?thesis
      by (auto simp: counts_snoc report_pc report_rest split: if_splits mpc.splits)
  qed
qed

text \<open>
  \<^bold>\<open>C1\<close> (as the program has it). Under every schedule main receives at most one result,
  exactly one once it is past its receive, and that result matches the pattern. No worker
  sends twice. A send proceeds exactly when the buffer is empty, whether or not the context
  is done, so that at most two results are ever put into the channel: the one main
  receives and at most one more, which stays in the buffer. A worker that leaves through
  the \<^verbatim>\<open>ctx.Done()\<close> case does so only when the context is done, and changes nothing but
  its own place: its result is dropped and \<^verbatim>\<open>cancel\<close> is not called.
\<close>

theorem one_result_received:
  assumes "exec c tr boot = Some s"
  shows "receives tr \<le> 1 \<and>
         (pc s = Returned None \<or> (\<exists>r. pc s = Waiting r) \<longrightarrow> receives tr = 1) \<and>
         (\<forall>r. pc s = Waiting r \<longrightarrow> matches c (Address r)) \<and>
         (\<forall>i. sendsOf i tr \<le> 1) \<and>
         sends tr = receives tr + length (resultCh s) \<and> sends tr \<le> 2 \<and>
         (\<forall>i r. i < length (workers s) \<and> workers s ! i = Publishing r \<longrightarrow>
            step c (Send i) s =
              (if resultCh s = []
               then Some (s\<lparr>resultCh := [r], workers := (workers s)[i := Cancelling]\<rparr>)
               else None)) \<and>
         (\<forall>i s'. step c (Quit i) s = Some s' \<longrightarrow>
            ctxDone s \<and> s' = s\<lparr>workers := (workers s)[i := Exited]\<rparr>)"
proof -
  note ch = channel_invariant[OF assms]
  have rc: "receives tr \<le> 1"
    using ch by (auto split: mpc.splits option.splits)
  have fin: "pc s = Returned None \<or> (\<exists>r. pc s = Waiting r) \<longrightarrow> receives tr = 1"
    using ch by (auto split: mpc.splits option.splits)
  have wf: "\<forall>r. pc s = Waiting r \<longrightarrow> matches c (Address r)"
  proof (intro allI impI)
    fix r
    assume "pc s = Waiting r"
    then have "offered s r"
      by (simp add: offered_def)
    from offered_wellformed[OF assms this] show "matches c (Address r)"
      by (rule conjunct2)
  qed
  have once: "\<forall>i. sendsOf i tr \<le> 1"
    using sender_invariant[OF assms] by blast
  have total: "sends tr = receives tr + length (resultCh s)" "sends tr \<le> 2"
    using ch rc by auto
  have send: "\<forall>i r. i < length (workers s) \<and> workers s ! i = Publishing r \<longrightarrow>
            step c (Send i) s =
              (if resultCh s = []
               then Some (s\<lparr>resultCh := [r], workers := (workers s)[i := Cancelling]\<rparr>)
               else None)"
    by auto
  have quit: "\<forall>i s'. step c (Quit i) s = Some s' \<longrightarrow>
            ctxDone s \<and> s' = s\<lparr>workers := (workers s)[i := Exited]\<rparr>"
    by (auto split: wpc.splits if_splits)
  from rc fin wf once total send quit show ?thesis
    by blast
qed

lemma race_run:
  "exec race [Start, Poll 0, Iterate 0, Poll 1, Iterate 1, Send 0, Recv, Cancel 0] boot =
     Some \<lparr>pc = Waiting (raceResult 0), workers = [Exited, Publishing (raceResult 1)],
            totalIterations = 2, resultCh = [], ctxDone = True, stdout = [Started],
            calls = 2\<rparr>"
  by code_simp

theorem one_result_received_witness:
  "exec race [Start, Poll 0, Iterate 0, Poll 1, Iterate 1, Send 0, Recv, Cancel 0] boot =
     Some \<lparr>pc = Waiting (raceResult 0), workers = [Exited, Publishing (raceResult 1)],
            totalIterations = 2, resultCh = [], ctxDone = True, stdout = [Started],
            calls = 2\<rparr> \<and>
   receives [Start, Poll 0, Iterate 0, Poll 1, Iterate 1, Send 0, Recv, Cancel 0] = 1 \<and>
   sends [Start, Poll 0, Iterate 0, Poll 1, Iterate 1, Send 0, Recv, Cancel 0] = 1 \<and>
   matches race (Address (raceResult 0))"
  using one_result_received[OF race_run] race_run
  by simp

text \<open>
  \<^bold>\<open>C1\<close> as the specification states it fails: a worker whose \<^verbatim>\<open>select\<close> finds cancellation
  already signalled does not have to drop its result. With two workers that both hold a
  matching address, worker 0 sends, main receives, worker 0 cancels; worker 1 then stands
  at its \<^verbatim>\<open>select\<close> with the context done and the buffer empty, its send proceeds, and it
  calls \<^verbatim>\<open>cancel\<close> again. Two results have been put into the channel in this run.
\<close>

theorem send_after_cancel_counterexample:
  "exec race [Start, Poll 0, Iterate 0, Poll 1, Iterate 1, Send 0, Recv, Cancel 0] boot =
     Some \<lparr>pc = Waiting (raceResult 0), workers = [Exited, Publishing (raceResult 1)],
            totalIterations = 2, resultCh = [], ctxDone = True, stdout = [Started],
            calls = 2\<rparr> \<and>
   step race (Send 1)
       \<lparr>pc = Waiting (raceResult 0), workers = [Exited, Publishing (raceResult 1)],
        totalIterations = 2, resultCh = [], ctxDone = True, stdout = [Started], calls = 2\<rparr> =
     Some \<lparr>pc = Waiting (raceResult 0), workers = [Exited, Cancelling],
            totalIterations = 2, resultCh = [raceResult 1], ctxDone = True,
            stdout = [Started], calls = 2\<rparr> \<and>
   step race (Cancel 1)
       \<lparr>pc = Waiting (raceResult 0), workers = [Exited, Cancelling],
        totalIterations = 2, resultCh = [raceResult 1], ctxDone = True, stdout = [Started],
        calls = 2\<rparr> =
     Some \<lparr>pc = Waiting (raceResult 0), workers = [Exited, Exited],
            totalIterations = 2, resultCh = [raceResult 1], ctxDone = True,
            stdout = [Started], calls = 2\<rparr> \<and>
   sends [Start, Poll 0, Iterate 0, Poll 1, Iterate 1, Send 0, Recv, Cancel 0, Send 1,
          Cancel 1] = 2"
  by code_simp

subsection \<open>The scenario with one worker\<close>





end
